theory Spec2Isabelle
  imports Main "HOL-Library.AList"
begin

section \<open>The channel manager of the sse plugin\<close>

text \<open>
  The source is \<^verbatim>\<open>lib/channel-manager.js\<close>. A \<^verbatim>\<open>ChannelManager\<close> owns a
  registry of listeners (\<^verbatim>\<open>this.subscribers\<close>), a counter (\<^verbatim>\<open>this.nextId\<close>) and two
  Redis connections: \<^verbatim>\<open>subConn\<close> for subscriptions and \<^verbatim>\<open>pubConn\<close> for publishing and
  for the room sets.

  Modelling decisions.
  \<^item> The registry \<^verbatim>\<open>this.subscribers = {}\<close> is a plain object. Its own properties are a
    map from channel name to listener table. \<^verbatim>\<open>subscribe\<close> and \<^verbatim>\<open>unsubscribe\<close> read
    \<^verbatim>\<open>this.subscribers[channel]\<close> and test it for truthiness: the read finds an own
    property first (a table, truthy even when empty) and otherwise a property of
    \<^verbatim>\<open>Object.prototype\<close>, which is truthy too: a built-in member (\<^verbatim>\<open>toString\<close>,
    \<^verbatim>\<open>constructor\<close>, ...), \<^verbatim>\<open>Object.prototype\<close> itself under \<^verbatim>\<open>__proto__\<close>, or a
    listener that an earlier \<^verbatim>\<open>subscribe\<close> on \<^verbatim>\<open>__proto__\<close> stored there under its id.
    The properties that the manager puts on such inherited objects are kept apart from
    the registry, in \<open>foreign\<close>. The built-in objects start without enumerable
    properties of their own, and so does every callback, each registration being a
    function object of its own.
  \<^item> The message handler is run for channels the connection is subscribed to; it is
    modelled on the own properties of the registry.
  \<^item> A listener table is an object whose keys are listener ids. It is an association
    list; \<^verbatim>\<open>subs[id] = fn\<close> is \<open>AList.update\<close>, \<^verbatim>\<open>delete(subs[id])\<close> is
    \<open>AList.delete\<close>, \<^verbatim>\<open>_.keys(subs).length === 0\<close> is emptiness, and \<^verbatim>\<open>_.forEach\<close> visits
    the own keys, integer keys in ascending order.
  \<^item> Listener ids are natural numbers: \<^verbatim>\<open>nextId++\<close> on a number that starts at 0, which
    counts exactly for the first \<open>2 ^ 53\<close> calls.
  \<^item> A listener is a function of the message that returns or throws; listeners do not
    call back into the manager while a message is dispatched.
  \<^item> A promise is modelled by the outcome it settles with: \<open>Inl\<close> a rejection reason,
    \<open>Inr\<close> the value.
\<close>

subsection \<open>Data\<close>

type_synonym error = string

datatype completion = Returns | Throws error

type_synonym callback = "string \<Rightarrow> completion"

type_synonym table = "(nat \<times> callback) list"

text \<open>The unsubscribe function \<^verbatim>\<open>this.unsubscribe.bind(this, channel, id)\<close>: the two bound
  arguments.\<close>

type_synonym handle = "string \<times> nat"

text \<open>The objects that a read of the registry can find on the prototype chain:
  \<^verbatim>\<open>Object.prototype\<close> itself, a built-in function by its member name, and the listener
  stored on \<^verbatim>\<open>Object.prototype\<close> under an id. A read finds an own table, one of these
  objects, or nothing.\<close>

datatype ref = ObjectPrototype | Builtin string | Stored nat

datatype found = Own table | Inherited ref | Undefined

datatype sub_cmd = SUBSCRIBE string | UNSUBSCRIBE string

text \<open>The subscription connection: the commands sent on it, oldest first, and the channels
  the broker has this connection subscribed to.\<close>

record sub_conn =
  sent :: "sub_cmd list"
  listening :: "string set"

text \<open>The publishing connection: the room sets of the store by key, the \<^verbatim>\<open>PUBLISH\<close> commands
  sent, oldest first, and the broker's answer to a \<^verbatim>\<open>PUBLISH\<close> of a message on a channel
  (an error, or the number of receivers).\<close>

record pub_conn =
  sets :: "string \<rightharpoonup> string list"
  published :: "(string \<times> string) list"
  broker_reply :: "string \<Rightarrow> string \<Rightarrow> error + nat"

record manager =
  subscribers :: "string \<rightharpoonup> table"
  nextId :: nat
  subConn :: sub_conn
  pubConn :: pub_conn
  foreign :: "ref \<Rightarrow> table"

text \<open>What one delivered message did: the listeners invoked, in order, each with its
  argument, and the error that left the handler, if one did.\<close>

record dispatch =
  invoked :: "(nat \<times> string) list"
  raised :: "error option"

subsection \<open>The Redis client\<close>

text \<open>Modelled from the spec: the broker's subscribe and unsubscribe (the Redis client is
  not part of the repository). \<^verbatim>\<open>SUBSCRIBE\<close> adds the channel to the connection's
  subscriptions, \<^verbatim>\<open>UNSUBSCRIBE\<close> removes it.\<close>

definition conn_subscribe :: "sub_conn \<Rightarrow> string \<Rightarrow> sub_conn" where
  "conn_subscribe c channel =
     c\<lparr>sent := sent c @ [SUBSCRIBE channel], listening := insert channel (listening c)\<rparr>"

definition conn_unsubscribe :: "sub_conn \<Rightarrow> string \<Rightarrow> sub_conn" where
  "conn_unsubscribe c channel =
     c\<lparr>sent := sent c @ [UNSUBSCRIBE channel], listening := listening c - {channel}\<rparr>"

text \<open>Modelled from the spec: the durable set storage (the Redis set commands, not part of
  the repository). A key that holds no set reads as the empty set; a set that loses its
  last member is removed with its key. Each command answers with Redis's integer reply.\<close>

definition sadd :: "pub_conn \<Rightarrow> string \<Rightarrow> string \<Rightarrow> (error + nat) \<times> pub_conn" where
  "sadd c key member =
     (case sets c key of
        None \<Rightarrow> (Inr 1, c\<lparr>sets := (sets c)(key \<mapsto> [member])\<rparr>)
      | Some xs \<Rightarrow>
          if member \<in> set xs then (Inr 0, c)
          else (Inr 1, c\<lparr>sets := (sets c)(key \<mapsto> xs @ [member])\<rparr>))"

definition srem :: "pub_conn \<Rightarrow> string \<Rightarrow> string \<Rightarrow> (error + nat) \<times> pub_conn" where
  "srem c key member =
     (case sets c key of
        None \<Rightarrow> (Inr 0, c)
      | Some xs \<Rightarrow>
          if member \<in> set xs then
            (let ys = removeAll member xs
             in (Inr 1, c\<lparr>sets := (if ys = [] then (sets c)(key := None)
                                      else (sets c)(key \<mapsto> ys))\<rparr>))
          else (Inr 0, c))"

definition smembers :: "pub_conn \<Rightarrow> string \<Rightarrow> (error + string list) \<times> pub_conn" where
  "smembers c key =
     (case sets c key of None \<Rightarrow> (Inr [], c) | Some xs \<Rightarrow> (Inr xs, c))"

definition del :: "pub_conn \<Rightarrow> string \<Rightarrow> (error + nat) \<times> pub_conn" where
  "del c key =
     (case sets c key of
        None \<Rightarrow> (Inr 0, c)
      | Some xs \<Rightarrow> (Inr 1, c\<lparr>sets := (sets c)(key := None)\<rparr>))"

text \<open>Modelled from the spec: \<^verbatim>\<open>PUBLISH\<close>. The command is sent and the broker answers.\<close>

definition conn_publish ::
  "pub_conn \<Rightarrow> string \<Rightarrow> string \<Rightarrow> (error + nat) \<times> pub_conn" where
  "conn_publish c channel message =
     (broker_reply c channel message, c\<lparr>published := published c @ [(channel, message)]\<rparr>)"

text \<open>Modelled from the spec: \<^verbatim>\<open>q.all\<close> (the promise library is not part of the
  repository). The aggregate is fulfilled with all the values when every promise is
  fulfilled, and rejected with the reason of the first rejected one otherwise.\<close>

fun q_all :: "(error + 'a) list \<Rightarrow> error + 'a list" where
  "q_all [] = Inr []"
| "q_all (Inl e # ps) = Inl e"
| "q_all (Inr v # ps) = (case q_all ps of Inl e \<Rightarrow> Inl e | Inr vs \<Rightarrow> Inr (v # vs))"

subsection \<open>The manager\<close>

text \<open>\<^verbatim>\<open>subscribersKey\<close>: \<^verbatim>\<open>util.format('room:%s:channels', room)\<close>.\<close>

definition subscribersKey :: "string \<Rightarrow> string" where
  "subscribersKey room = ''room:'' @ room @ '':channels''"

text \<open>The constructor, on a publishing connection in a given state; nothing is subscribed
  yet.\<close>

definition new_manager :: "pub_conn \<Rightarrow> manager" where
  "new_manager pc =
     \<lparr>subscribers = Map.empty, nextId = 0,
      subConn = \<lparr>sent = [], listening = {}\<rparr>, pubConn = pc, foreign = (\<lambda>r. [])\<rparr>"

text \<open>The member names of \<^verbatim>\<open>Object.prototype\<close> other than \<^verbatim>\<open>__proto__\<close>; each holds a
  function.\<close>

definition builtin_names :: "string list" where
  "builtin_names =
     [''constructor'', ''hasOwnProperty'', ''isPrototypeOf'', ''propertyIsEnumerable'',
      ''toLocaleString'', ''toString'', ''valueOf'', ''__defineGetter__'',
      ''__defineSetter__'', ''__lookupGetter__'', ''__lookupSetter__'']"

text \<open>The property key of a listener id: its decimal numeral.\<close>

fun decimal :: "nat \<Rightarrow> string" where
  "decimal n =
     (if n < 10 then [''0123456789'' ! n]
      else decimal (n div 10) @ [''0123456789'' ! (n mod 10)])"

declare decimal.simps [simp del]

text \<open>The read \<^verbatim>\<open>this.subscribers[channel]\<close>.\<close>

definition js_get :: "manager \<Rightarrow> string \<Rightarrow> found" where
  "js_get m channel =
     (case subscribers m channel of
        Some subs \<Rightarrow> Own subs
      | None \<Rightarrow>
          if channel = ''__proto__'' then Inherited ObjectPrototype
          else if channel \<in> set builtin_names then Inherited (Builtin channel)
          else (case find (\<lambda>p. decimal (fst p) = channel) (foreign m ObjectPrototype) of
                  Some p \<Rightarrow> Inherited (Stored (fst p))
                | None \<Rightarrow> Undefined))"

text \<open>The loop of \<^verbatim>\<open>_.forEach\<close> over the listeners: each is called with the message; a
  throw ends the loop and leaves it.\<close>

fun invoke_all :: "table \<Rightarrow> string \<Rightarrow> dispatch" where
  "invoke_all [] message = \<lparr>invoked = [], raised = None\<rparr>"
| "invoke_all ((i, subscriber) # rest) message =
     (case subscriber message of
        Throws e \<Rightarrow> \<lparr>invoked = [(i, message)], raised = Some e\<rparr>
      | Returns \<Rightarrow>
          (let d = invoke_all rest message
           in d\<lparr>invoked := (i, message) # invoked d\<rparr>))"

text \<open>The handler of \<^verbatim>\<open>subConn.on('message', ...)\<close>: nothing when the channel has no
  table, else the loop over the table's entries in ascending order of their ids. The
  handler writes nothing to the manager, which is returned as it was.\<close>

definition on_message :: "manager \<Rightarrow> string \<Rightarrow> string \<Rightarrow> manager \<times> dispatch" where
  "on_message m channel message =
     (case subscribers m channel of
        None \<Rightarrow> (m, \<lparr>invoked = [], raised = None\<rparr>)
      | Some subs \<Rightarrow> (m, invoke_all (sort_key fst subs) message))"

text \<open>\<^verbatim>\<open>subscribe\<close>: when the read finds nothing, a table is created and \<^verbatim>\<open>SUBSCRIBE\<close> is
  sent; then the listener is stored under the next id on what the read found, or on the
  new table. On an inherited object that is a property of that object, not of the
  registry.\<close>

definition subscribe :: "manager \<Rightarrow> string \<Rightarrow> callback \<Rightarrow> manager \<times> handle" where
  "subscribe m channel fn =
     (let i = nextId m
      in case js_get m channel of
           Undefined \<Rightarrow>
             (m\<lparr>subscribers := (subscribers m)(channel \<mapsto> AList.update i fn []),
                subConn := conn_subscribe (subConn m) channel,
                nextId := i + 1\<rparr>,
              (channel, i))
         | Own subs \<Rightarrow>
             (m\<lparr>subscribers := (subscribers m)(channel \<mapsto> AList.update i fn subs),
                nextId := i + 1\<rparr>,
              (channel, i))
         | Inherited r \<Rightarrow>
             (m\<lparr>foreign := (foreign m)(r := AList.update i fn (foreign m r)),
                nextId := i + 1\<rparr>,
              (channel, i)))"

text \<open>\<^verbatim>\<open>unsubscribe\<close>: nothing when the read finds nothing; else the id is deleted from
  what the read found, and when that has no key left, the registry's own property of the
  channel is deleted and \<^verbatim>\<open>UNSUBSCRIBE\<close> is sent. For an inherited object the registry
  has no own property to delete.\<close>

definition unsubscribe :: "manager \<Rightarrow> string \<Rightarrow> nat \<Rightarrow> manager" where
  "unsubscribe m channel listenerId =
     (case js_get m channel of
        Undefined \<Rightarrow> m
      | Own subs \<Rightarrow>
          (let subs' = AList.delete listenerId subs
           in if subs' = [] then
                m\<lparr>subscribers := (subscribers m)(channel := None),
                   subConn := conn_unsubscribe (subConn m) channel\<rparr>
              else m\<lparr>subscribers := (subscribers m)(channel \<mapsto> subs')\<rparr>)
      | Inherited r \<Rightarrow>
          (let subs' = AList.delete listenerId (foreign m r);
               m1 = m\<lparr>foreign := (foreign m)(r := subs')\<rparr>
           in if subs' = [] then m1\<lparr>subConn := conn_unsubscribe (subConn m1) channel\<rparr>
              else m1))"

text \<open>Calling the function that \<^verbatim>\<open>subscribe\<close> returned.\<close>

definition call_handle :: "manager \<Rightarrow> handle \<Rightarrow> manager" where
  "call_handle m h = unsubscribe m (fst h) (snd h)"

definition publish :: "manager \<Rightarrow> string \<Rightarrow> string \<Rightarrow> (error + nat) \<times> manager" where
  "publish m channel message =
     (let (r, c) = conn_publish (pubConn m) channel message in (r, m\<lparr>pubConn := c\<rparr>))"

definition enter :: "manager \<Rightarrow> string \<Rightarrow> string \<Rightarrow> (error + nat) \<times> manager" where
  "enter m room channel =
     (let (r, c) = sadd (pubConn m) (subscribersKey room) channel in (r, m\<lparr>pubConn := c\<rparr>))"

definition leave :: "manager \<Rightarrow> string \<Rightarrow> string \<Rightarrow> (error + nat) \<times> manager" where
  "leave m room channel =
     (let (r, c) = srem (pubConn m) (subscribersKey room) channel in (r, m\<lparr>pubConn := c\<rparr>))"

definition members :: "manager \<Rightarrow> string \<Rightarrow> (error + string list) \<times> manager" where
  "members m room =
     (let (r, c) = smembers (pubConn m) (subscribersKey room) in (r, m\<lparr>pubConn := c\<rparr>))"

definition close :: "manager \<Rightarrow> string \<Rightarrow> (error + nat) \<times> manager" where
  "close m room =
     (let (r, c) = del (pubConn m) (subscribersKey room) in (r, m\<lparr>pubConn := c\<rparr>))"

text \<open>The \<^verbatim>\<open>subscribers.map\<close> of \<^verbatim>\<open>broadcast\<close>: one \<^verbatim>\<open>publish\<close> per element, each
  started whatever the others answer.\<close>

fun publish_each :: "manager \<Rightarrow> string list \<Rightarrow> string \<Rightarrow> (error + nat) list \<times> manager" where
  "publish_each m [] message = ([], m)"
| "publish_each m (channel # rest) message =
     (let (r, m1) = publish m channel message;
          (rs, m2) = publish_each m1 rest message
      in (r # rs, m2))"

definition broadcast :: "manager \<Rightarrow> string \<Rightarrow> string \<Rightarrow> (error + nat list) \<times> manager" where
  "broadcast m room message =
     (case members m room of
        (Inl e, m1) \<Rightarrow> (Inl e, m1)
      | (Inr channels, m1) \<Rightarrow>
          (let (rs, m2) = publish_each m1 channels message in (q_all rs, m2)))"

subsection \<open>Sequences of calls\<close>

text \<open>A client's calls on the registry: \<^verbatim>\<open>subscribe(channel, fn)\<close> and the call of an
  unsubscribe function, \<^verbatim>\<open>unsubscribe(channel, listenerId)\<close>.\<close>

datatype call = Subscribe string callback | Unsubscribe string nat

fun step :: "manager \<Rightarrow> call \<Rightarrow> manager" where
  "step m (Subscribe channel fn) = fst (subscribe m channel fn)"
| "step m (Unsubscribe channel listenerId) = unsubscribe m channel listenerId"

definition run :: "manager \<Rightarrow> call list \<Rightarrow> manager" where
  "run m calls = foldl step m calls"

text \<open>The listeners registered for a channel, and whether the broker has the connection
  subscribed to it.\<close>

definition listeners :: "manager \<Rightarrow> string \<Rightarrow> table" where
  "listeners m channel = (case subscribers m channel of None \<Rightarrow> [] | Some t \<Rightarrow> t)"

definition has_key :: "manager \<Rightarrow> string \<Rightarrow> bool" where
  "has_key m channel = (subscribers m channel \<noteq> None)"

definition broker_subscribed :: "manager \<Rightarrow> string \<Rightarrow> bool" where
  "broker_subscribed m channel = (channel \<in> listening (subConn m))"

text \<open>Whether the read of the registry finds the channel name on the prototype chain.\<close>

definition inherits :: "manager \<Rightarrow> string \<Rightarrow> bool" where
  "inherits m channel =
     (case js_get m channel of Inherited r \<Rightarrow> True | Own subs \<Rightarrow> False | Undefined \<Rightarrow> False)"

text \<open>The member sequence that \<^verbatim>\<open>members(room)\<close> resolves to.\<close>

definition members_now :: "manager \<Rightarrow> string \<Rightarrow> string list" where
  "members_now m room = (case fst (members m room) of Inl e \<Rightarrow> [] | Inr cs \<Rightarrow> cs)"

text \<open>The shape of the registry that \<^verbatim>\<open>subscribe\<close> and \<^verbatim>\<open>unsubscribe\<close> maintain: no
  channel is kept with an empty table, the keys are the channels the broker has
  subscribed, and the ids of a table are distinct and below the counter.\<close>

definition wf_registry :: "manager \<Rightarrow> bool" where
  "wf_registry m =
     (\<forall>c. subscribers m c \<noteq> Some []
        \<and> ((subscribers m c \<noteq> None) = (c \<in> listening (subConn m)))
        \<and> distinct (map fst (listeners m c))
        \<and> (\<forall>i\<in>fst ` set (listeners m c). i < nextId m))"

text \<open>An id that was handed out and is no longer in the channel's table.\<close>

definition spent :: "manager \<Rightarrow> string \<Rightarrow> nat \<Rightarrow> bool" where
  "spent m c i = (i < nextId m \<and> i \<notin> fst ` set (listeners m c))"

text \<open>An id that was handed out and still maps to its callback.\<close>

definition registered :: "manager \<Rightarrow> string \<Rightarrow> nat \<Rightarrow> callback \<Rightarrow> bool" where
  "registered m c i f = (i < nextId m \<and> map_of (listeners m c) i = Some f)"

subsection \<open>Example values\<close>

text \<open>An empty store behind a broker that accepts every message, and one behind a broker
  that refuses the channel \<^verbatim>\<open>you\<close>.\<close>

definition store0 :: pub_conn where
  "store0 = \<lparr>sets = Map.empty, published = [], broker_reply = (\<lambda>channel message. Inr 1)\<rparr>"

definition picky_reply :: "string \<Rightarrow> string \<Rightarrow> error + nat" where
  "picky_reply channel message = (if channel = ''you'' then Inl ''refused'' else Inr 1)"

definition store1 :: pub_conn where
  "store1 = \<lparr>sets = Map.empty, published = [], broker_reply = picky_reply\<rparr>"

definition quiet_listener :: callback where
  "quiet_listener message = Returns"

definition failing_listener :: callback where
  "failing_listener message = Throws ''boom''"

definition one_on_me :: manager where
  "one_on_me = run (new_manager store0) [Subscribe ''me'' failing_listener]"

definition two_on_me :: manager where
  "two_on_me =
     run (new_manager store0) [Subscribe ''me'' failing_listener, Subscribe ''me'' quiet_listener]"

definition three_on_me :: manager where
  "three_on_me =
     run (new_manager store0)
       [Subscribe ''me'' quiet_listener, Subscribe ''me'' failing_listener,
        Subscribe ''me'' quiet_listener]"

text \<open>A new manager after \<^verbatim>\<open>subscribe('toString', fn)\<close>, and one after
  \<^verbatim>\<open>subscribe('constructor', fn)\<close> and a call of the function it returned.\<close>

definition on_toString :: manager where
  "on_toString = fst (subscribe (new_manager store0) ''toString'' quiet_listener)"

definition off_constructor :: manager where
  "off_constructor =
     call_handle (fst (subscribe (new_manager store0) ''constructor'' quiet_listener))
       (''constructor'', 0)"

text \<open>A run in which the channel \<^verbatim>\<open>0\<close> is an inherited name when listener 1 subscribes to
  it: listener 0 sits on \<^verbatim>\<open>Object.prototype\<close> under the key \<^verbatim>\<open>0\<close> until it is
  unsubscribed, and then listener 2 subscribes to the channel.\<close>

definition polluted :: manager where
  "polluted =
     run (new_manager store0)
       [Subscribe ''__proto__'' quiet_listener, Subscribe ''0'' quiet_listener,
        Unsubscribe ''__proto__'' 0, Subscribe ''0'' quiet_listener]"

definition party :: manager where
  "party =
     snd (enter (snd (enter (new_manager store1) ''party-room'' ''me'')) ''party-room'' ''you'')"

section \<open>Rooms\<close>

subsection \<open>What the room operations do to the store\<close>

lemma members_now_eq:
  "members_now m r = (case sets (pubConn m) (subscribersKey r) of None \<Rightarrow> [] | Some xs \<Rightarrow> xs)"
  by (simp add: members_now_def members_def smembers_def split: option.splits)

lemma members_state: "snd (members m r) = m"
  by (simp add: members_def smembers_def split: option.splits)

lemma members_fst: "fst (members m r) = Inr (members_now m r)"
  by (simp add: members_now_def members_def smembers_def split: option.splits)

lemma sets_enter:
  "sets (pubConn (snd (enter m r c))) =
     (sets (pubConn m))(subscribersKey r \<mapsto>
        (if c \<in> set (members_now m r) then members_now m r else members_now m r @ [c]))"
  by (auto simp add: members_now_eq enter_def sadd_def split: option.splits)

lemma members_enter:
  "members_now (snd (enter m r c)) r =
     (if c \<in> set (members_now m r) then members_now m r else members_now m r @ [c])"
  by (simp add: members_now_eq[of "snd _"] sets_enter)

lemma sets_leave_other:
  "k \<noteq> subscribersKey r \<Longrightarrow> sets (pubConn (snd (leave m r c))) k = sets (pubConn m) k"
  by (simp add: leave_def srem_def Let_def split: option.splits)

lemma members_leave: "members_now (snd (leave m r c)) r = removeAll c (members_now m r)"
  by (auto simp add: members_now_eq leave_def srem_def Let_def split: option.splits)

lemma sets_close:
  "sets (pubConn (snd (close m r))) = (sets (pubConn m))(subscribersKey r := None)"
  by (auto simp add: close_def del_def split: option.splits)

lemma publish_fst: "fst (publish m c msg) = broker_reply (pubConn m) c msg"
  by (simp add: publish_def conn_publish_def)

lemma publish_each_results:
  "fst (publish_each m cs msg) = map (\<lambda>c. broker_reply (pubConn m) c msg) cs"
  by (induction cs arbitrary: m) (simp_all add: publish_def conn_publish_def split_def Let_def)

lemma publish_each_state:
  "snd (publish_each m cs msg) =
     m\<lparr>pubConn := (pubConn m)\<lparr>published := published (pubConn m) @ map (\<lambda>c. (c, msg)) cs\<rparr>\<rparr>"
  by (induction cs arbitrary: m) (simp_all add: publish_def conn_publish_def split_def Let_def)

lemma q_all_Inr: "(\<exists>vs. q_all rs = Inr vs) \<longleftrightarrow> (\<forall>r\<in>set rs. \<exists>v. r = Inr v)"
  by (induction rs rule: q_all.induct) (auto split: sum.splits)

lemma q_all_Inl: "(\<exists>e. q_all rs = Inl e) \<longleftrightarrow> (\<exists>r\<in>set rs. \<exists>e. r = Inl e)"
  by (induction rs rule: q_all.induct) (auto split: sum.splits)

lemma broadcast_eq:
  "broadcast m r msg =
     (q_all (map (\<lambda>c. broker_reply (pubConn m) c msg) (members_now m r)),
      m\<lparr>pubConn := (pubConn m)\<lparr>published :=
            published (pubConn m) @ map (\<lambda>c. (c, msg)) (members_now m r)\<rparr>\<rparr>)"
proof -
  have "members m r = (Inr (members_now m r), m)"
    by (simp add: prod_eq_iff members_fst members_state)
  then show ?thesis
    by (simp add: broadcast_def split_def publish_each_results publish_each_state)
qed

subsection \<open>Broadcast\<close>

text \<open>
  Claim C3. \<^verbatim>\<open>broadcast(r, m)\<close> resolves \<^verbatim>\<open>members(r)\<close> and sends one \<^verbatim>\<open>publish(c, m)\<close>
  for each element \<open>c\<close> of the member sequence, in that order, and nothing else: the
  commands sent on the connection grow by exactly these, and the room sets are left as
  they were, whatever the broker answers (no retry, nothing undone). The broadcast is
  fulfilled if and only if every one of these publishes is fulfilled, and it is rejected
  as soon as one of them is rejected.
\<close>

theorem broadcast_fan_out:
  assumes "fst (members m r) = Inr cs"
  shows "published (pubConn (snd (broadcast m r msg))) =
           published (pubConn m) @ map (\<lambda>c. (c, msg)) cs
    \<and> sets (pubConn (snd (broadcast m r msg))) = sets (pubConn m)
    \<and> ((\<exists>vs. fst (broadcast m r msg) = Inr vs) \<longleftrightarrow>
         (\<forall>c\<in>set cs. \<exists>n. fst (publish m c msg) = Inr n))
    \<and> ((\<exists>c\<in>set cs. \<exists>e. fst (publish m c msg) = Inl e) \<longrightarrow>
         (\<exists>e. fst (broadcast m r msg) = Inl e))"
proof -
  from assms have cs: "members_now m r = cs" by (simp add: members_fst)
  show ?thesis
    by (simp add: broadcast_eq cs publish_fst q_all_Inr q_all_Inl)
qed

text \<open>
  Claim C10. A broadcast to a room whose member set is empty or was never created is
  fulfilled (with the empty list of replies) and sends no publish: the manager, and with it
  the list of commands sent, is as before.
\<close>

theorem broadcast_empty_room:
  assumes "sets (pubConn m) (subscribersKey r) = None
         \<or> sets (pubConn m) (subscribersKey r) = Some []"
  shows "broadcast m r msg = (Inr [], m)
       \<and> published (pubConn (snd (broadcast m r msg))) = published (pubConn m)"
proof -
  from assms have "members_now m r = []" by (auto simp: members_now_eq)
  then show ?thesis by (simp add: broadcast_eq)
qed

subsection \<open>Membership\<close>

text \<open>
  Claim C7. From any store state, \<^verbatim>\<open>enter(r, c)\<close> followed by \<^verbatim>\<open>leave(r, c)\<close> leaves
  \<open>c\<close> out of the members of \<open>r\<close>, and a room that had no members has none afterwards.
  Entering a member that is present and leaving one that is absent answer successfully
  (with Redis's reply 0) and change nothing; both operations always answer successfully,
  and entering twice gives the state of entering once.
\<close>

theorem enter_then_leave:
  "c \<notin> set (members_now (snd (leave (snd (enter m r c)) r c)) r)
   \<and> (members_now m r = [] \<longrightarrow> members_now (snd (leave (snd (enter m r c)) r c)) r = [])
   \<and> (c \<in> set (members_now m r) \<longrightarrow> enter m r c = (Inr 0, m))
   \<and> (c \<notin> set (members_now m r) \<longrightarrow> leave m r c = (Inr 0, m))
   \<and> (\<exists>n. fst (enter m r c) = Inr n) \<and> (\<exists>n. fst (leave m r c) = Inr n)
   \<and> snd (enter (snd (enter m r c)) r c) = snd (enter m r c)"
proof (intro conjI)
  show "c \<notin> set (members_now (snd (leave (snd (enter m r c)) r c)) r)"
    by (simp add: members_leave)
  show "members_now m r = [] \<longrightarrow> members_now (snd (leave (snd (enter m r c)) r c)) r = []"
    by (simp add: members_leave members_enter)
  show "c \<in> set (members_now m r) \<longrightarrow> enter m r c = (Inr 0, m)"
    by (auto simp add: members_now_eq enter_def sadd_def split: option.splits)
  show "c \<notin> set (members_now m r) \<longrightarrow> leave m r c = (Inr 0, m)"
    by (auto simp add: members_now_eq leave_def srem_def split: option.splits)
  show "\<exists>n. fst (enter m r c) = Inr n"
    by (auto simp add: enter_def sadd_def split: option.splits)
  show "\<exists>n. fst (leave m r c) = Inr n"
    by (auto simp add: leave_def srem_def Let_def split: option.splits)
  show "snd (enter (snd (enter m r c)) r c) = snd (enter m r c)"
    by (auto simp add: enter_def sadd_def split: option.splits)
qed

text \<open>
  Claim C8. After \<^verbatim>\<open>close(r)\<close> the store holds nothing under the room's key, as for a room
  that never existed, and \<^verbatim>\<open>members(r)\<close> resolves to the empty sequence; the other keys
  are untouched. \<^verbatim>\<open>close\<close> always answers successfully; on a room that does not exist it
  answers 0 and changes nothing, and closing twice gives the state of closing once.
\<close>

theorem close_deletes_room:
  "sets (pubConn (snd (close m r))) (subscribersKey r) = None
   \<and> members (snd (close m r)) r = (Inr [], snd (close m r))
   \<and> (\<forall>k. k \<noteq> subscribersKey r \<longrightarrow> sets (pubConn (snd (close m r))) k = sets (pubConn m) k)
   \<and> (\<exists>n. fst (close m r) = Inr n)
   \<and> (sets (pubConn m) (subscribersKey r) = None \<longrightarrow> close m r = (Inr 0, m))
   \<and> snd (close (snd (close m r)) r) = snd (close m r)"
proof (intro conjI)
  show "sets (pubConn (snd (close m r))) (subscribersKey r) = None"
    by (simp add: sets_close)
  show "members (snd (close m r)) r = (Inr [], snd (close m r))"
    by (simp add: members_def smembers_def sets_close)
  show "\<forall>k. k \<noteq> subscribersKey r \<longrightarrow> sets (pubConn (snd (close m r))) k = sets (pubConn m) k"
    by (simp add: sets_close)
  show "\<exists>n. fst (close m r) = Inr n"
    by (auto simp add: close_def del_def split: option.splits)
  show "sets (pubConn m) (subscribersKey r) = None \<longrightarrow> close m r = (Inr 0, m)"
    by (auto simp add: close_def del_def split: option.splits)
  show "snd (close (snd (close m r)) r) = snd (close m r)"
    by (auto simp add: close_def del_def split: option.splits)
qed

text \<open>
  Claim C9. The key of a room is the prefix \<^verbatim>\<open>room:\<close>, the room id and the suffix
  \<^verbatim>\<open>:channels\<close>, so a room has one key and two rooms have different keys. The five room
  operations work on that key: \<^verbatim>\<open>enter\<close>, \<^verbatim>\<open>leave\<close> and \<^verbatim>\<open>close\<close> change the store at
  most there (\<^verbatim>\<open>enter\<close> puts the channel into the set stored there, \<^verbatim>\<open>leave\<close> takes it out,
  \<^verbatim>\<open>close\<close> removes the key), \<^verbatim>\<open>members\<close> resolves to the set stored there, and
  \<^verbatim>\<open>broadcast\<close> publishes to the channels stored there.
\<close>

theorem room_key_derivation:
  "subscribersKey r = ''room:'' @ r @ '':channels''
   \<and> (subscribersKey r = subscribersKey r' \<longleftrightarrow> r = r')
   \<and> (\<forall>k. k \<noteq> subscribersKey r \<longrightarrow>
          sets (pubConn (snd (enter m r c))) k = sets (pubConn m) k
        \<and> sets (pubConn (snd (leave m r c))) k = sets (pubConn m) k
        \<and> sets (pubConn (snd (close m r))) k = sets (pubConn m) k)
   \<and> (\<exists>xs. sets (pubConn (snd (enter m r c))) (subscribersKey r) = Some xs \<and> c \<in> set xs)
   \<and> (\<forall>xs. sets (pubConn (snd (leave m r c))) (subscribersKey r) = Some xs \<longrightarrow> c \<notin> set xs)
   \<and> sets (pubConn (snd (close m r))) (subscribersKey r) = None
   \<and> fst (members m r) =
        Inr (case sets (pubConn m) (subscribersKey r) of None \<Rightarrow> [] | Some xs \<Rightarrow> xs)
   \<and> published (pubConn (snd (broadcast m r msg))) =
        published (pubConn m) @
        map (\<lambda>c. (c, msg))
          (case sets (pubConn m) (subscribersKey r) of None \<Rightarrow> [] | Some xs \<Rightarrow> xs)"
proof (intro conjI)
  show "subscribersKey r = ''room:'' @ r @ '':channels''"
    by (simp add: subscribersKey_def)
  show "subscribersKey r = subscribersKey r' \<longleftrightarrow> r = r'"
    by (simp add: subscribersKey_def)
  show "\<forall>k. k \<noteq> subscribersKey r \<longrightarrow>
          sets (pubConn (snd (enter m r c))) k = sets (pubConn m) k
        \<and> sets (pubConn (snd (leave m r c))) k = sets (pubConn m) k
        \<and> sets (pubConn (snd (close m r))) k = sets (pubConn m) k"
    by (simp add: sets_enter sets_leave_other sets_close)
  show "\<exists>xs. sets (pubConn (snd (enter m r c))) (subscribersKey r) = Some xs \<and> c \<in> set xs"
    by (simp add: sets_enter)
  have "c \<notin> set (members_now (snd (leave m r c)) r)"
    by (simp add: members_leave)
  then show "\<forall>xs. sets (pubConn (snd (leave m r c))) (subscribersKey r) = Some xs \<longrightarrow> c \<notin> set xs"
    by (simp add: members_now_eq split: option.splits)
  show "sets (pubConn (snd (close m r))) (subscribersKey r) = None"
    by (simp add: sets_close)
  show "fst (members m r) =
        Inr (case sets (pubConn m) (subscribersKey r) of None \<Rightarrow> [] | Some xs \<Rightarrow> xs)"
    by (simp add: members_fst members_now_eq)
  show "published (pubConn (snd (broadcast m r msg))) =
        published (pubConn m) @
        map (\<lambda>c. (c, msg))
          (case sets (pubConn m) (subscribersKey r) of None \<Rightarrow> [] | Some xs \<Rightarrow> xs)"
    by (simp add: broadcast_eq members_now_eq)
qed

subsection \<open>The room operations on concrete stores\<close>

text \<open>The room \<^verbatim>\<open>party-room\<close> after \<^verbatim>\<open>me\<close> and \<^verbatim>\<open>you\<close> entered it, and the
  empty store.\<close>

lemmas room_eval =
  party_def members_def smembers_def enter_def leave_def close_def sadd_def srem_def del_def
  new_manager_def store0_def store1_def subscribersKey_def publish_def conn_publish_def
  picky_reply_def members_now_def

theorem broadcast_fan_out_witness:
  "fst (members party ''party-room'') = Inr [''me'', ''you'']
   \<and> published (pubConn (snd (broadcast party ''party-room'' ''hello''))) =
       published (pubConn party) @ [(''me'', ''hello''), (''you'', ''hello'')]
   \<and> sets (pubConn (snd (broadcast party ''party-room'' ''hello''))) = sets (pubConn party)
   \<and> (\<exists>e. fst (broadcast party ''party-room'' ''hello'') = Inl e)"
proof -
  have h: "fst (members party ''party-room'') = Inr [''me'', ''you'']"
    by (simp add: room_eval)
  have f: "fst (publish party ''you'' ''hello'') = Inl ''refused''"
    by (simp add: room_eval)
  show ?thesis
    using h f broadcast_fan_out [OF h, of "''hello''"] by auto
qed

theorem broadcast_empty_room_witness:
  "sets (pubConn (new_manager store0)) (subscribersKey ''party-room'') = None
   \<and> broadcast (new_manager store0) ''party-room'' ''hello'' = (Inr [], new_manager store0)"
proof -
  have h: "sets (pubConn (new_manager store0)) (subscribersKey ''party-room'') = None"
    by (simp add: room_eval)
  show ?thesis
    using h broadcast_empty_room [OF disjI1, OF h, of "''hello''"] by simp
qed

theorem enter_then_leave_witness:
  "members_now (new_manager store0) ''party-room'' = []
   \<and> members_now (snd (leave (snd (enter (new_manager store0) ''party-room'' ''me''))
        ''party-room'' ''me'')) ''party-room'' = []
   \<and> ''me'' \<in> set (members_now party ''party-room'')
   \<and> enter party ''party-room'' ''me'' = (Inr 0, party)
   \<and> ''them'' \<notin> set (members_now party ''party-room'')
   \<and> leave party ''party-room'' ''them'' = (Inr 0, party)"
proof -
  have h1: "members_now (new_manager store0) ''party-room'' = []"
    by (simp add: room_eval)
  have h2: "''me'' \<in> set (members_now party ''party-room'')"
    by (simp add: room_eval)
  have h3: "''them'' \<notin> set (members_now party ''party-room'')"
    by (simp add: room_eval)
  show ?thesis
    using h1 h2 h3
      enter_then_leave [of "''me''" "new_manager store0" "''party-room''"]
      enter_then_leave [of "''me''" party "''party-room''"]
      enter_then_leave [of "''them''" party "''party-room''"]
    by simp
qed

theorem close_deletes_room_witness:
  "fst (members party ''party-room'') = Inr [''me'', ''you'']
   \<and> fst (members (snd (close party ''party-room'')) ''party-room'') = Inr []
   \<and> ''room:lobby:channels'' \<noteq> subscribersKey ''party-room''
   \<and> sets (pubConn (snd (close party ''party-room''))) ''room:lobby:channels'' =
       sets (pubConn party) ''room:lobby:channels''
   \<and> sets (pubConn (new_manager store0)) (subscribersKey ''party-room'') = None
   \<and> close (new_manager store0) ''party-room'' = (Inr 0, new_manager store0)"
proof -
  have h0: "fst (members party ''party-room'') = Inr [''me'', ''you'']"
    by (simp add: room_eval)
  have h1: "''room:lobby:channels'' \<noteq> subscribersKey ''party-room''"
    by (simp add: subscribersKey_def)
  have h2: "sets (pubConn (new_manager store0)) (subscribersKey ''party-room'') = None"
    by (simp add: room_eval)
  show ?thesis
    using h0 h1 h2
      close_deletes_room [of party "''party-room''"]
      close_deletes_room [of "new_manager store0" "''party-room''"]
    by simp
qed

theorem room_key_derivation_witness:
  "subscribersKey ''party-room'' = ''room:party-room:channels''
   \<and> ''room:lobby:channels'' \<noteq> subscribersKey ''party-room''
   \<and> sets (pubConn (snd (enter party ''party-room'' ''them''))) ''room:lobby:channels'' =
       sets (pubConn party) ''room:lobby:channels''
   \<and> sets (pubConn (snd (leave party ''party-room'' ''me''))) (subscribersKey ''party-room'') =
       Some [''you'']
   \<and> ''me'' \<notin> set [''you'']"
proof -
  have h1: "''room:lobby:channels'' \<noteq> subscribersKey ''party-room''"
    by (simp add: subscribersKey_def)
  have h2: "sets (pubConn (snd (leave party ''party-room'' ''me''))) (subscribersKey ''party-room'') =
       Some [''you'']"
    by (simp add: room_eval)
  show ?thesis
    using h1 h2
      room_key_derivation [of "''party-room''" "''party-room''" party "''them''" "''hello''"]
      room_key_derivation [of "''party-room''" "''party-room''" party "''me''" "''hello''"]
    by simp
qed

section \<open>The listener registry\<close>

subsection \<open>What subscribe and unsubscribe do to the manager\<close>

lemma js_get_Own: "js_get m c = Own t \<longleftrightarrow> subscribers m c = Some t"
  by (auto simp: js_get_def split: option.splits)

lemma js_get_no_key: "js_get m c = Undefined \<or> js_get m c = Inherited r \<Longrightarrow> subscribers m c = None"
  by (auto simp: js_get_def split: option.splits)

lemma inherits_no_key: "inherits m c \<Longrightarrow> subscribers m c = None"
  by (auto simp: inherits_def js_get_def split: option.splits)

lemma subscribers_subscribe:
  "subscribers (fst (subscribe m c fn)) =
     (if inherits m c then subscribers m
      else (subscribers m)(c \<mapsto> AList.update (nextId m) fn (listeners m c)))"
proof (cases "js_get m c")
  case (Own t)
  then have "subscribers m c = Some t" by (simp add: js_get_Own)
  with Own show ?thesis by (simp add: subscribe_def inherits_def listeners_def Let_def)
next
  case (Inherited r)
  then show ?thesis by (simp add: subscribe_def inherits_def Let_def)
next
  case Undefined
  then have "subscribers m c = None" by (simp add: js_get_no_key)
  with Undefined show ?thesis by (simp add: subscribe_def inherits_def listeners_def Let_def)
qed

lemma nextId_subscribe: "nextId (fst (subscribe m c fn)) = nextId m + 1"
  by (simp add: subscribe_def Let_def split: found.splits)

lemma subConn_subscribe:
  "subConn (fst (subscribe m c fn)) =
     (if js_get m c = Undefined then conn_subscribe (subConn m) c else subConn m)"
  by (simp add: subscribe_def Let_def split: found.splits)

lemma pubConn_subscribe: "pubConn (fst (subscribe m c fn)) = pubConn m"
  by (simp add: subscribe_def Let_def split: found.splits)

lemma handle_subscribe: "snd (subscribe m c fn) = (c, nextId m)"
  by (simp add: subscribe_def Let_def split: found.splits)

lemma listeners_subscribe:
  "listeners (fst (subscribe m c fn)) d =
     (if d = c \<and> \<not> inherits m c then AList.update (nextId m) fn (listeners m c)
      else listeners m d)"
  by (simp add: listeners_def[of "fst _"] subscribers_subscribe) (simp add: listeners_def)

lemma subscribers_unsubscribe:
  "subscribers (unsubscribe m c i) =
     (case subscribers m c of None \<Rightarrow> subscribers m
      | Some subs \<Rightarrow> if AList.delete i subs = [] then (subscribers m)(c := None)
                     else (subscribers m)(c \<mapsto> AList.delete i subs))"
proof (cases "js_get m c")
  case (Own t)
  then have "subscribers m c = Some t" by (simp add: js_get_Own)
  with Own show ?thesis by (simp add: unsubscribe_def Let_def)
next
  case (Inherited r)
  then have "subscribers m c = None" by (simp add: js_get_no_key)
  with Inherited show ?thesis by (simp add: unsubscribe_def Let_def)
next
  case Undefined
  then have "subscribers m c = None" by (simp add: js_get_no_key)
  with Undefined show ?thesis by (simp add: unsubscribe_def)
qed

lemma nextId_unsubscribe: "nextId (unsubscribe m c i) = nextId m"
  by (simp add: unsubscribe_def Let_def split: found.splits)

lemma subConn_unsubscribe:
  "subConn (unsubscribe m c i) =
     (case js_get m c of
        Undefined \<Rightarrow> subConn m
      | Own subs \<Rightarrow> if AList.delete i subs = [] then conn_unsubscribe (subConn m) c
                    else subConn m
      | Inherited r \<Rightarrow> if AList.delete i (foreign m r) = [] then conn_unsubscribe (subConn m) c
                        else subConn m)"
  by (simp add: unsubscribe_def Let_def split: found.splits)

lemma subConn_unsubscribe_key:
  "subscribers m c = Some subs \<Longrightarrow>
   subConn (unsubscribe m c i) =
     (if AList.delete i subs = [] then conn_unsubscribe (subConn m) c else subConn m)"
  by (simp add: subConn_unsubscribe js_get_Own[THEN iffD2])

lemma listeners_unsubscribe:
  "listeners (unsubscribe m c i) d =
     (if d = c then AList.delete i (listeners m c) else listeners m d)"
  by (auto simp add: listeners_def subscribers_unsubscribe split: option.splits)

lemma listening_conn_subscribe [simp]: "listening (conn_subscribe s c) = insert c (listening s)"
  by (simp add: conn_subscribe_def)

lemma listening_conn_unsubscribe [simp]: "listening (conn_unsubscribe s c) = listening s - {c}"
  by (simp add: conn_unsubscribe_def)

lemma wf_new: "wf_registry (new_manager pc)"
  by (simp add: wf_registry_def new_manager_def listeners_def)

lemma wf_subscribe:
  assumes "wf_registry m"
  shows "wf_registry (fst (subscribe m c fn))"
  unfolding wf_registry_def
proof (intro allI conjI)
  fix d
  from assms have a: "subscribers m d \<noteq> Some []"
    "(subscribers m d \<noteq> None) = (d \<in> listening (subConn m))"
    "distinct (map fst (listeners m d))" "\<forall>i\<in>fst ` set (listeners m d). i < nextId m"
    by (simp_all add: wf_registry_def)
  from assms have ac: "(subscribers m c \<noteq> None) = (c \<in> listening (subConn m))"
    by (simp add: wf_registry_def)
  show "subscribers (fst (subscribe m c fn)) d \<noteq> Some []"
    using a(1) by (simp add: subscribers_subscribe)
  show "(subscribers (fst (subscribe m c fn)) d \<noteq> None) =
        (d \<in> listening (subConn (fst (subscribe m c fn))))"
  proof (cases "js_get m c")
    case (Own t)
    then have "subscribers m c = Some t" by (simp add: js_get_Own)
    with Own a(2) ac show ?thesis
      by (auto simp add: subscribers_subscribe subConn_subscribe inherits_def)
  next
    case (Inherited r)
    with a(2) show ?thesis
      by (simp add: subscribers_subscribe subConn_subscribe inherits_def)
  next
    case Undefined
    with a(2) show ?thesis
      by (auto simp add: subscribers_subscribe subConn_subscribe inherits_def)
  qed
  from assms have dc: "distinct (map fst (listeners m c))" by (simp add: wf_registry_def)
  show "distinct (map fst (listeners (fst (subscribe m c fn)) d))"
    using a(3) dc by (simp add: listeners_subscribe distinct_update)
  from assms have bc: "\<forall>i\<in>fst ` set (listeners m c). i < nextId m" by (simp add: wf_registry_def)
  show "\<forall>i\<in>fst ` set (listeners (fst (subscribe m c fn)) d). i < nextId (fst (subscribe m c fn))"
  proof (cases "d = c")
    case True
    have "fst ` set (AList.update (nextId m) fn (listeners m c)) =
          insert (nextId m) (fst ` set (listeners m c))"
      by (simp add: dom_update)
    with bc True show ?thesis
      by (cases "inherits m c") (simp_all add: listeners_subscribe nextId_subscribe less_Suc_eq)
  next
    case False
    with a(4) show ?thesis
      by (simp add: listeners_subscribe nextId_subscribe less_Suc_eq)
  qed
qed

lemma wf_unsubscribe:
  assumes "wf_registry m"
  shows "wf_registry (unsubscribe m c i)"
  unfolding wf_registry_def
proof (intro allI conjI)
  fix d
  from assms have a: "subscribers m d \<noteq> Some []"
    "(subscribers m d \<noteq> None) = (d \<in> listening (subConn m))"
    "distinct (map fst (listeners m d))" "\<forall>i\<in>fst ` set (listeners m d). i < nextId m"
    by (simp_all add: wf_registry_def)
  from assms have ac: "(subscribers m c \<noteq> None) = (c \<in> listening (subConn m))"
    by (simp add: wf_registry_def)
  show "subscribers (unsubscribe m c i) d \<noteq> Some []"
    using a(1) by (simp add: subscribers_unsubscribe split: option.splits)
  show "(subscribers (unsubscribe m c i) d \<noteq> None) =
        (d \<in> listening (subConn (unsubscribe m c i)))"
  proof (cases "js_get m c")
    case (Own t)
    then have "subscribers m c = Some t" by (simp add: js_get_Own)
    with a(2) ac show ?thesis
      by (auto simp add: subscribers_unsubscribe subConn_unsubscribe_key)
  next
    case (Inherited r)
    then have "subscribers m c = None" by (simp add: js_get_no_key)
    with Inherited a(2) ac show ?thesis
      by (auto simp add: subscribers_unsubscribe subConn_unsubscribe)
  next
    case Undefined
    then have "subscribers m c = None" by (simp add: js_get_no_key)
    with Undefined a(2) show ?thesis
      by (simp add: subscribers_unsubscribe subConn_unsubscribe)
  qed
  from assms have dc: "distinct (map fst (listeners m c))" by (simp add: wf_registry_def)
  show "distinct (map fst (listeners (unsubscribe m c i) d))"
    using a(3) dc by (simp add: listeners_unsubscribe distinct_delete)
  from assms have bc: "\<forall>i\<in>fst ` set (listeners m c). i < nextId m" by (simp add: wf_registry_def)
  show "\<forall>j\<in>fst ` set (listeners (unsubscribe m c i) d). j < nextId (unsubscribe m c i)"
  proof (cases "d = c")
    case True
    have "set (AList.delete i (listeners m c)) \<subseteq> set (listeners m c)"
      by (auto simp: AList.delete_eq)
    with bc True show ?thesis
      by (auto simp add: listeners_unsubscribe nextId_unsubscribe)
  next
    case False
    with a(4) show ?thesis
      by (simp add: listeners_unsubscribe nextId_unsubscribe)
  qed
qed

lemma wf_step: "wf_registry m \<Longrightarrow> wf_registry (step m x)"
  by (cases x) (simp_all add: wf_subscribe wf_unsubscribe)

lemma run_snoc: "run m (xs @ [x]) = step (run m xs) x"
  by (simp add: run_def)

lemma run_append: "run m (xs @ ys) = run (run m xs) ys"
  by (simp add: run_def)

lemma wf_run: "wf_registry m \<Longrightarrow> wf_registry (run m calls)"
  by (induction calls rule: rev_induct) (simp_all add: run_snoc wf_step, simp add: run_def)

lemma nextId_step: "nextId m \<le> nextId (step m x)"
  by (cases x) (simp_all add: nextId_subscribe nextId_unsubscribe)

lemma nextId_run: "nextId m \<le> nextId (run m calls)"
proof (induction calls rule: rev_induct)
  case Nil
  show ?case by (simp add: run_def)
next
  case (snoc x xs)
  have "nextId (run m xs) \<le> nextId (step (run m xs) x)" by (rule nextId_step)
  with snoc show ?case by (simp add: run_snoc)
qed

lemma spent_step: "spent m c i \<Longrightarrow> spent (step m x) c i"
proof (cases x)
  case (Subscribe d fn)
  assume "spent m c i"
  then show ?thesis
    by (auto simp add: Subscribe spent_def listeners_subscribe nextId_subscribe dom_update)
next
  case (Unsubscribe d j)
  assume s: "spent m c i"
  have "fst ` set (AList.delete j (listeners m c)) \<subseteq> fst ` set (listeners m c)"
    by (rule dom_delete_subset)
  with s show ?thesis
    by (auto simp add: Unsubscribe spent_def listeners_unsubscribe nextId_unsubscribe)
qed

lemma spent_run: "spent m c i \<Longrightarrow> spent (run m calls) c i"
  by (induction calls rule: rev_induct) (simp_all add: run_snoc spent_step, simp add: run_def)

lemma unsubscribe_absent_key:
  "subscribers m c = None \<Longrightarrow> subscribers (unsubscribe m c i) = subscribers m"
  by (simp add: subscribers_unsubscribe)

lemma unsubscribe_undefined: "js_get m c = Undefined \<Longrightarrow> unsubscribe m c i = m"
  by (simp add: unsubscribe_def)

lemma not_inherits: "\<not> inherits m c \<Longrightarrow> js_get m c = Undefined \<or> (\<exists>t. js_get m c = Own t)"
  by (cases "js_get m c") (simp_all add: inherits_def)

lemma unsubscribe_absent_id:
  assumes "wf_registry m" "i \<notin> fst ` set (listeners m c)" "\<not> inherits m c"
  shows "unsubscribe m c i = m"
proof (cases "js_get m c")
  case Undefined
  then show ?thesis by (simp add: unsubscribe_def)
next
  case (Inherited r)
  with assms(3) show ?thesis by (simp add: inherits_def)
next
  case (Own subs)
  then have key: "subscribers m c = Some subs" by (simp add: js_get_Own)
  from assms(1) key have ne: "subs \<noteq> []" by (auto simp: wf_registry_def)
  from assms(2) key have "AList.delete i subs = subs" by (simp add: listeners_def)
  moreover from key have "(subscribers m)(c \<mapsto> subs) = subscribers m" by auto
  ultimately show ?thesis using ne Own by (simp add: unsubscribe_def)
qed

lemma unsubscribe_absent_id_registry:
  assumes "wf_registry m" "i \<notin> fst ` set (listeners m c)"
  shows "subscribers (unsubscribe m c i) = subscribers m"
proof (cases "inherits m c")
  case True
  then show ?thesis by (simp add: unsubscribe_absent_key inherits_no_key)
next
  case False
  with assms show ?thesis by (simp add: unsubscribe_absent_id)
qed

text \<open>
  Claim C5. Calling an unsubscribe function when the registry has no entry for its channel
  leaves the registry as it was. And a second call of the unsubscribe function that
  \<^verbatim>\<open>subscribe\<close> returned, after a first call of it and whatever calls of \<^verbatim>\<open>subscribe\<close>
  and \<^verbatim>\<open>unsubscribe\<close> came before, between and after, leaves the registry as it was,
  for every channel name; \<^verbatim>\<open>unsubscribe\<close> has no path that throws. When the channel name
  is not one the registry inherits, the call changes nothing at all: the counter and the
  commands sent to the broker are as before too.
\<close>

theorem unsubscribe_twice_is_noop:
  "(\<not> has_key m0 c \<longrightarrow> subscribers (call_handle m0 (c, i)) = subscribers m0)
   \<and> (\<not> has_key m0 c \<and> \<not> inherits m0 c \<longrightarrow> call_handle m0 (c, i) = m0)
   \<and> (let m1 = run (new_manager pc) before;
           h = snd (subscribe m1 c fn);
           m2 = call_handle (run (fst (subscribe m1 c fn)) between) h;
           m3 = run m2 after
       in subscribers (call_handle m3 h) = subscribers m3
        \<and> (\<not> inherits m3 c \<longrightarrow> call_handle m3 h = m3))"
proof -
  define m1 where "m1 = run (new_manager pc) before"
  define k where "k = run (fst (subscribe m1 c fn)) between"
  define m2 where "m2 = unsubscribe k c (nextId m1)"
  define m3 where "m3 = run m2 after"
  have "wf_registry m1" unfolding m1_def by (rule wf_run[OF wf_new])
  then have "wf_registry k" unfolding k_def by (intro wf_run wf_subscribe)
  then have "wf_registry m2" unfolding m2_def by (rule wf_unsubscribe)
  then have wf3: "wf_registry m3" unfolding m3_def by (rule wf_run)
  have "nextId (fst (subscribe m1 c fn)) \<le> nextId k" unfolding k_def by (rule nextId_run)
  then have "nextId m1 < nextId k" by (simp add: nextId_subscribe)
  then have "spent m2 c (nextId m1)"
    by (simp add: spent_def m2_def nextId_unsubscribe listeners_unsubscribe delete_notin_dom)
  then have "spent m3 c (nextId m1)" unfolding m3_def by (rule spent_run)
  then have gone: "nextId m1 \<notin> fst ` set (listeners m3 c)" by (simp add: spent_def)
  have 1: "subscribers (unsubscribe m3 c (nextId m1)) = subscribers m3"
    using wf3 gone by (rule unsubscribe_absent_id_registry)
  have 2: "\<not> inherits m3 c \<longrightarrow> unsubscribe m3 c (nextId m1) = m3"
    using wf3 gone by (simp add: unsubscribe_absent_id)
  have 3: "\<not> has_key m0 c \<longrightarrow> subscribers (call_handle m0 (c, i)) = subscribers m0"
    by (simp add: has_key_def call_handle_def unsubscribe_absent_key)
  have 4: "\<not> has_key m0 c \<and> \<not> inherits m0 c \<longrightarrow> call_handle m0 (c, i) = m0"
  proof (intro impI, elim conjE)
    assume "\<not> has_key m0 c" "\<not> inherits m0 c"
    then have "js_get m0 c = Undefined"
      using not_inherits[of m0 c] by (auto simp: has_key_def js_get_Own)
    then show "call_handle m0 (c, i) = m0"
      by (simp add: call_handle_def unsubscribe_undefined)
  qed
  from 1 2 3 4 show ?thesis
    by (simp add: call_handle_def handle_subscribe m1_def k_def m2_def m3_def Let_def)
qed

text \<open>
  The registry invariant behind claim C1's first sentence holds for every channel name:
  after any sequence of \<^verbatim>\<open>subscribe\<close> and \<^verbatim>\<open>unsubscribe\<close> calls on a new manager, the
  registry has a key for a channel if and only if the channel has a listener in the
  registry and the broker has the connection subscribed to it. For a channel name that the
  registry does not inherit, a \<^verbatim>\<open>subscribe\<close> without a key creates the key and sends
  \<^verbatim>\<open>SUBSCRIBE\<close>. For an inherited name it creates no key and sends nothing. Removing the
  only listener of a key deletes the key and sends \<^verbatim>\<open>UNSUBSCRIBE\<close>; an \<^verbatim>\<open>unsubscribe\<close>
  that leaves a listener keeps the key and sends nothing.
\<close>

theorem registry_key_invariant:
  assumes "m = run (new_manager pc) calls"
  shows "(has_key m c \<longleftrightarrow> listeners m c \<noteq> [] \<and> broker_subscribed m c)
    \<and> (listeners m c \<noteq> [] \<longleftrightarrow> broker_subscribed m c)
    \<and> (\<not> has_key m c \<and> \<not> inherits m c \<longrightarrow>
          has_key (fst (subscribe m c fn)) c
        \<and> sent (subConn (fst (subscribe m c fn))) = sent (subConn m) @ [SUBSCRIBE c]
        \<and> broker_subscribed (fst (subscribe m c fn)) c)
    \<and> (inherits m c \<longrightarrow>
          \<not> has_key (fst (subscribe m c fn)) c
        \<and> subConn (fst (subscribe m c fn)) = subConn m)
    \<and> (has_key m c \<longrightarrow>
          has_key (fst (subscribe m c fn)) c
        \<and> subConn (fst (subscribe m c fn)) = subConn m)
    \<and> (listeners m c = [(i, f)] \<longrightarrow>
          \<not> has_key (unsubscribe m c i) c
        \<and> sent (subConn (unsubscribe m c i)) = sent (subConn m) @ [UNSUBSCRIBE c]
        \<and> \<not> broker_subscribed (unsubscribe m c i) c)
    \<and> (AList.delete i (listeners m c) \<noteq> [] \<longrightarrow>
          has_key (unsubscribe m c i) c
        \<and> subConn (unsubscribe m c i) = subConn m)"
proof -
  have wf: "wf_registry m" unfolding assms by (rule wf_run[OF wf_new])
  then have a: "subscribers m c \<noteq> Some []"
    "(subscribers m c \<noteq> None) = (c \<in> listening (subConn m))"
    by (simp_all add: wf_registry_def)
  have 1: "has_key m c \<longleftrightarrow> listeners m c \<noteq> []"
    using a(1) by (auto simp: has_key_def listeners_def split: option.splits)
  have 2: "has_key m c \<longleftrightarrow> broker_subscribed m c"
    using a(2) by (simp add: has_key_def broker_subscribed_def)
  have 3: "\<not> has_key m c \<and> \<not> inherits m c \<longrightarrow>
          has_key (fst (subscribe m c fn)) c
        \<and> sent (subConn (fst (subscribe m c fn))) = sent (subConn m) @ [SUBSCRIBE c]
        \<and> broker_subscribed (fst (subscribe m c fn)) c"
  proof (intro impI, elim conjE)
    assume "\<not> has_key m c" and ni: "\<not> inherits m c"
    then have "js_get m c = Undefined"
      using not_inherits[of m c] by (auto simp: has_key_def js_get_Own)
    with ni show "has_key (fst (subscribe m c fn)) c
        \<and> sent (subConn (fst (subscribe m c fn))) = sent (subConn m) @ [SUBSCRIBE c]
        \<and> broker_subscribed (fst (subscribe m c fn)) c"
      by (simp add: has_key_def broker_subscribed_def subscribers_subscribe subConn_subscribe
          conn_subscribe_def)
  qed
  have 4: "inherits m c \<longrightarrow>
          \<not> has_key (fst (subscribe m c fn)) c
        \<and> subConn (fst (subscribe m c fn)) = subConn m"
    by (auto simp add: has_key_def subscribers_subscribe subConn_subscribe inherits_no_key
        inherits_def)
  have 5: "has_key m c \<longrightarrow>
          has_key (fst (subscribe m c fn)) c
        \<and> subConn (fst (subscribe m c fn)) = subConn m"
    by (auto simp add: has_key_def subscribers_subscribe subConn_subscribe js_get_def)
  have 6: "listeners m c = [(i, f)] \<longrightarrow>
          \<not> has_key (unsubscribe m c i) c
        \<and> sent (subConn (unsubscribe m c i)) = sent (subConn m) @ [UNSUBSCRIBE c]
        \<and> \<not> broker_subscribed (unsubscribe m c i) c"
    by (auto simp add: has_key_def broker_subscribed_def subscribers_unsubscribe
        subConn_unsubscribe_key conn_unsubscribe_def listeners_def split: option.splits)
  have 7: "AList.delete i (listeners m c) \<noteq> [] \<longrightarrow>
          has_key (unsubscribe m c i) c
        \<and> subConn (unsubscribe m c i) = subConn m"
    by (auto simp add: has_key_def subscribers_unsubscribe
        subConn_unsubscribe_key listeners_def split: option.splits)
  from 1 2 3 4 5 6 7 show ?thesis by blast
qed

lemma on_message_eq:
  "on_message m c msg = (m, invoke_all (sort_key fst (listeners m c)) msg)"
  by (simp add: on_message_def listeners_def split: option.splits)

lemma invoke_all_append:
  "\<forall>p\<in>set before. snd p msg = Returns \<Longrightarrow>
   invoke_all (before @ rest) msg =
     (invoke_all rest msg)\<lparr>invoked := map (\<lambda>p. (fst p, msg)) before @ invoked (invoke_all rest msg)\<rparr>"
  by (induction before) (auto simp: Let_def)

text \<open>
  Claim C2, as the code has it. The handler has no \<^verbatim>\<open>try\<close>: when the listeners of the
  channel, in ascending order of their ids, are some that return, then one that throws,
  then the rest, the handler has invoked the first ones and the throwing one with the
  message and none of the rest, the error leaves the handler, and the manager is
  unchanged.
\<close>

theorem dispatch_stops_at_first_throw:
  assumes "sort_key fst (listeners m c) = before @ (i, f) # after"
    and "\<forall>p\<in>set before. snd p msg = Returns"
    and "f msg = Throws e"
  shows "on_message m c msg =
           (m, \<lparr>invoked = map (\<lambda>p. (fst p, msg)) (before @ [(i, f)]), raised = Some e\<rparr>)"
  using assms(3) by (simp add: on_message_eq assms(1) invoke_all_append[OF assms(2)])

lemma invoked_id: "x \<in> set (invoked (invoke_all t msg)) \<Longrightarrow> fst x \<in> fst ` set t"
proof (induction t)
  case Nil
  then show ?case by simp
next
  case (Cons p rest)
  obtain j g where p: "p = (j, g)" by (cases p)
  show ?case
  proof (cases "g msg")
    case Returns
    with Cons.prems have "x = (j, msg) \<or> x \<in> set (invoked (invoke_all rest msg))"
      by (simp add: p Let_def)
    with Cons.IH show ?thesis by (auto simp: p)
  next
    case (Throws e)
    with Cons.prems show ?thesis by (simp add: p)
  qed
qed

lemma invoked_ids: "fst ` set (invoked (invoke_all t msg)) \<subseteq> fst ` set t"
  using invoked_id by blast

lemma invoke_all_once:
  assumes "sorted (map fst t)" "distinct (map fst t)" "(i, f) \<in> set t"
    and "\<forall>p\<in>set t. fst p < i \<longrightarrow> snd p msg = Returns"
  shows "filter (\<lambda>x. fst x = i) (invoked (invoke_all t msg)) = [(i, msg)]"
  using assms
proof (induction t)
  case Nil
  then show ?case by simp
next
  case (Cons p rest)
  obtain j g where p: "p = (j, g)" by (cases p)
  show ?case
  proof (cases "j = i")
    case True
    from Cons.prems(2) have "i \<notin> fst ` set rest" by (simp add: p True)
    with invoked_ids[of rest msg] have "i \<notin> fst ` set (invoked (invoke_all rest msg))" by blast
    then have "filter (\<lambda>x. fst x = i) (invoked (invoke_all rest msg)) = []"
      by (auto simp: filter_empty_conv)
    then show ?thesis by (simp add: p True Let_def split: completion.splits)
  next
    case False
    with Cons.prems(3) have mem: "(i, f) \<in> set rest" by (simp add: p)
    with Cons.prems(1) have "j \<le> i" by (force simp: p)
    with False have "j < i" by simp
    with Cons.prems(4) have ret: "g msg = Returns" by (simp add: p)
    have "filter (\<lambda>x. fst x = i) (invoked (invoke_all rest msg)) = [(i, msg)]"
      using Cons.prems mem by (intro Cons.IH) (simp_all add: p)
    then show ?thesis using False by (simp add: p ret Let_def)
  qed
qed

lemma distinct_keys_sort: "distinct (map fst (sort_key fst t)) = distinct (map fst t)"
  by (induction t) (simp_all add: distinct_insort_key)

lemma registered_step:
  assumes "registered m c i f" "x \<noteq> Unsubscribe c i"
  shows "registered (step m x) c i f"
proof (cases x)
  case (Subscribe d g)
  from assms(1) show ?thesis
    by (auto simp add: Subscribe registered_def listeners_subscribe nextId_subscribe update_conv')
next
  case (Unsubscribe d j)
  with assms(2) have "d \<noteq> c \<or> j \<noteq> i" by simp
  with assms(1) show ?thesis
    by (auto simp add: Unsubscribe registered_def listeners_unsubscribe nextId_unsubscribe)
qed

lemma registered_run:
  "registered m c i f \<Longrightarrow> Unsubscribe c i \<notin> set calls \<Longrightarrow> registered (run m calls) c i f"
proof (induction calls rule: rev_induct)
  case Nil
  then show ?case by (simp add: run_def)
next
  case (snoc x xs)
  then have "registered (run m xs) c i f" "x \<noteq> Unsubscribe c i" by auto
  then show ?case by (simp add: run_snoc registered_step)
qed

lemma registered_subscribe:
  "\<not> inherits m c \<Longrightarrow> registered (fst (subscribe m c f)) c (nextId m) f"
  by (simp add: registered_def nextId_subscribe listeners_subscribe update_conv')

text \<open>
  Claim C4, as the code has it. Let \<open>c\<close> be a channel name that the registry does not
  inherit when \<^verbatim>\<open>subscribe(c, f)\<close> is called, let the call return a listener id \<open>i\<close>,
  and let any calls follow except \<^verbatim>\<open>unsubscribe(c, i)\<close>. If every listener of \<open>c\<close> with
  a smaller id returns on the message, then a message delivered on \<open>c\<close> invokes
  listener \<open>i\<close>, which is still \<open>f\<close>, exactly once, with the message, and leaves the
  manager unchanged.
\<close>

theorem listener_invoked_once:
  assumes "m1 = run (new_manager pc) before"
    and "\<not> inherits m1 c"
    and "i = snd (snd (subscribe m1 c f))"
    and "m3 = run (fst (subscribe m1 c f)) later"
    and "Unsubscribe c i \<notin> set later"
    and "\<forall>p\<in>set (listeners m3 c). fst p < i \<longrightarrow> snd p msg = Returns"
  shows "filter (\<lambda>x. fst x = i) (invoked (snd (on_message m3 c msg))) = [(i, msg)]
       \<and> map_of (listeners m3 c) i = Some f
       \<and> fst (on_message m3 c msg) = m3"
proof -
  have i: "i = nextId m1" by (simp add: assms(3) handle_subscribe)
  have "wf_registry m1" unfolding assms(1) by (rule wf_run[OF wf_new])
  then have "wf_registry m3" unfolding assms(4) by (intro wf_run wf_subscribe)
  then have d: "distinct (map fst (listeners m3 c))" by (simp add: wf_registry_def)
  have "registered m3 c i f"
    unfolding assms(4) using assms(5) assms(2)
    by (intro registered_run) (simp_all add: i registered_subscribe)
  then have look: "map_of (listeners m3 c) i = Some f" by (simp add: registered_def)
  then have "(i, f) \<in> set (listeners m3 c)" by (rule map_of_SomeD)
  then have mem: "(i, f) \<in> set (sort_key fst (listeners m3 c))" by simp
  have "filter (\<lambda>x. fst x = i) (invoked (invoke_all (sort_key fst (listeners m3 c)) msg)) = [(i, msg)]"
    using mem assms(6) by (intro invoke_all_once[where f = f]) (simp_all add: distinct_keys_sort d)
  with look show ?thesis by (simp add: on_message_eq)
qed


subsection \<open>The registry on concrete runs\<close>

lemmas state_eval =
  run_def subscribe_def unsubscribe_def call_handle_def new_manager_def conn_subscribe_def
  conn_unsubscribe_def listeners_def has_key_def broker_subscribed_def on_message_def Let_def
  js_get_def inherits_def builtin_names_def store0_def
  one_on_me_def two_on_me_def three_on_me_def on_toString_def off_constructor_def

lemmas registry_eval = state_eval quiet_listener_def failing_listener_def

lemma decimal_examples: "decimal 0 = ''0'' \<and> decimal 7 = ''7'' \<and> decimal 120 = ''120''"
  by (simp add: decimal.simps)

text \<open>A listener stored on \<^verbatim>\<open>Object.prototype\<close> by a \<^verbatim>\<open>subscribe\<close> on \<^verbatim>\<open>__proto__\<close> is
  what the registry then reads under the listener's id.\<close>

lemma stored_listener_is_inherited:
  "foreign (fst (subscribe (new_manager store0) ''__proto__'' quiet_listener)) ObjectPrototype =
     [(0, quiet_listener)]
   \<and> js_get (fst (subscribe (new_manager store0) ''__proto__'' quiet_listener)) ''0'' =
     Inherited (Stored 0)
   \<and> js_get (new_manager store0) ''0'' = Undefined"
  by (simp add: state_eval decimal.simps)

text \<open>
  Claim C1 fails in the code for a channel name that the registry inherits. On a new
  manager \<^verbatim>\<open>subscribe('toString', fn)\<close> reads \<^verbatim>\<open>Object.prototype.toString\<close>, which is
  truthy: the first \<^verbatim>\<open>subscribe\<close> on the channel creates no key and sends no
  \<^verbatim>\<open>SUBSCRIBE\<close>, and the listener is stored on the inherited function.
\<close>

theorem subscribe_on_inherited_name:
  "\<not> has_key (new_manager store0) ''toString''
   \<and> snd (subscribe (new_manager store0) ''toString'' quiet_listener) = (''toString'', 0)
   \<and> \<not> has_key on_toString ''toString''
   \<and> sent (subConn on_toString) = []
   \<and> \<not> broker_subscribed on_toString ''toString''
   \<and> foreign on_toString (Builtin ''toString'') = [(0, quiet_listener)]"
  by (simp add: state_eval)

theorem registry_key_invariant_witness:
  "has_key one_on_me ''me'' \<and> listeners one_on_me ''me'' = [(0, failing_listener)]
   \<and> broker_subscribed one_on_me ''me''
   \<and> \<not> has_key (unsubscribe one_on_me ''me'' 0) ''me''
   \<and> sent (subConn (unsubscribe one_on_me ''me'' 0)) = [SUBSCRIBE ''me'', UNSUBSCRIBE ''me'']
   \<and> \<not> has_key one_on_me ''you'' \<and> \<not> inherits one_on_me ''you''
   \<and> sent (subConn (fst (subscribe one_on_me ''you'' quiet_listener))) =
        [SUBSCRIBE ''me'', SUBSCRIBE ''you'']
   \<and> inherits one_on_me ''toString''
   \<and> \<not> has_key (fst (subscribe one_on_me ''toString'' quiet_listener)) ''toString''
   \<and> sent (subConn (fst (subscribe one_on_me ''toString'' quiet_listener))) =
        [SUBSCRIBE ''me'']"
proof -
  have h1: "listeners one_on_me ''me'' = [(0, failing_listener)]"
    by (simp add: state_eval)
  have h2: "\<not> has_key one_on_me ''you''" "\<not> inherits one_on_me ''you''"
    by (simp_all add: state_eval)
  have h3: "sent (subConn one_on_me) = [SUBSCRIBE ''me'']"
    by (simp add: state_eval)
  have h4: "inherits one_on_me ''toString''"
    by (simp add: state_eval)
  show ?thesis
    using h1 h2 h3 h4
      registry_key_invariant [OF one_on_me_def, of "''me''" quiet_listener 0 failing_listener]
      registry_key_invariant [OF one_on_me_def, of "''you''" quiet_listener 0 failing_listener]
      registry_key_invariant [OF one_on_me_def, of "''toString''" quiet_listener 0
        failing_listener]
    by simp
qed

text \<open>The second call of an unsubscribe function, on the channel \<^verbatim>\<open>me\<close> and on the
  inherited name \<^verbatim>\<open>constructor\<close>: there each call sends \<^verbatim>\<open>UNSUBSCRIBE\<close>, and the registry
  stays as it was.\<close>

theorem unsubscribe_twice_is_noop_witness:
  "\<not> has_key (new_manager store0) ''me'' \<and> \<not> inherits (new_manager store0) ''me''
   \<and> call_handle (new_manager store0) (''me'', 0) = new_manager store0
   \<and> snd (subscribe (new_manager store0) ''me'' failing_listener) = (''me'', 0)
   \<and> \<not> inherits (call_handle one_on_me (''me'', 0)) ''me''
   \<and> call_handle (call_handle one_on_me (''me'', 0)) (''me'', 0) =
       call_handle one_on_me (''me'', 0)
   \<and> snd (subscribe (new_manager store0) ''constructor'' quiet_listener) = (''constructor'', 0)
   \<and> subscribers (call_handle off_constructor (''constructor'', 0)) =
       subscribers off_constructor
   \<and> sent (subConn off_constructor) = [UNSUBSCRIBE ''constructor'']
   \<and> sent (subConn (call_handle off_constructor (''constructor'', 0))) =
       [UNSUBSCRIBE ''constructor'', UNSUBSCRIBE ''constructor'']"
proof -
  have h1: "\<not> has_key (new_manager store0) ''me''" "\<not> inherits (new_manager store0) ''me''"
    by (simp_all add: state_eval)
  have h2: "snd (subscribe (new_manager store0) ''me'' failing_listener) = (''me'', 0)"
    "snd (subscribe (new_manager store0) ''constructor'' quiet_listener) = (''constructor'', 0)"
    by (simp_all add: state_eval)
  have h3: "one_on_me = fst (subscribe (new_manager store0) ''me'' failing_listener)"
    by (simp add: one_on_me_def run_def)
  have h4: "\<not> inherits (call_handle one_on_me (''me'', 0)) ''me''"
    by (simp add: state_eval)
  have h5: "off_constructor =
      call_handle (fst (subscribe (new_manager store0) ''constructor'' quiet_listener))
        (''constructor'', 0)"
    by (simp add: off_constructor_def)
  have h6: "sent (subConn off_constructor) = [UNSUBSCRIBE ''constructor'']"
    "sent (subConn (call_handle off_constructor (''constructor'', 0))) =
       [UNSUBSCRIBE ''constructor'', UNSUBSCRIBE ''constructor'']"
    by (simp_all add: state_eval)
  show ?thesis
    using h1 h2 h4 h6
      unsubscribe_twice_is_noop [of "new_manager store0" "''me''" 0 store0 "[]"
        failing_listener "[]" "[]"]
      unsubscribe_twice_is_noop [of "new_manager store0" "''constructor''" 0 store0 "[]"
        quiet_listener "[]" "[]"]
    by (simp add: h3 h5 run_def Let_def)
qed


text \<open>
  Claim C2 as stated fails: with a throwing listener 0 and a second listener 1 on the
  channel, a message invokes listener 0 only, and the error leaves the handler.
\<close>

theorem throwing_listener_stops_dispatch:
  "map fst (listeners two_on_me ''me'') = [0, 1]
   \<and> on_message two_on_me ''me'' ''hello'' =
       (two_on_me, \<lparr>invoked = [(0, ''hello'')], raised = Some ''boom''\<rparr>)"
  by (simp add: registry_eval)

theorem dispatch_stops_at_first_throw_witness:
  "sort_key fst (listeners three_on_me ''me'') =
     [(0, quiet_listener)] @ (1, failing_listener) # [(2, quiet_listener)]
   \<and> on_message three_on_me ''me'' ''hello'' =
       (three_on_me, \<lparr>invoked = [(0, ''hello''), (1, ''hello'')], raised = Some ''boom''\<rparr>)"
proof -
  have h1: "sort_key fst (listeners three_on_me ''me'') =
     [(0, quiet_listener)] @ (1, failing_listener) # [(2, quiet_listener)]"
    by (simp add: state_eval)
  have h2: "\<forall>p\<in>set [(0, quiet_listener)]. snd p ''hello'' = Returns"
    by (simp add: quiet_listener_def)
  have h3: "failing_listener ''hello'' = Throws ''boom''"
    by (simp add: failing_listener_def)
  show ?thesis
    using h1 dispatch_stops_at_first_throw [OF h1 h2 h3] by simp
qed

text \<open>
  Claim C4 as stated fails: a listener subscribed after one that throws is not invoked by
  a message on their channel, although its unsubscribe function was never called.
\<close>

theorem later_listener_not_invoked:
  "snd (subscribe one_on_me ''me'' quiet_listener) = (''me'', 1)
   \<and> (1, ''hello'') \<notin> set (invoked (snd (on_message
         (fst (subscribe one_on_me ''me'' quiet_listener)) ''me'' ''hello'')))
   \<and> raised (snd (on_message
         (fst (subscribe one_on_me ''me'' quiet_listener)) ''me'' ''hello'')) = Some ''boom''"
  by (simp add: registry_eval)

text \<open>Without the condition on the channel name the statement fails too: in the run
  \<open>polluted\<close> listener 1 subscribed to the channel \<^verbatim>\<open>0\<close> while the registry inherited
  that name, so it was stored outside the registry; its unsubscribe function was never
  called, no listener throws, the broker has the connection subscribed to the channel, and
  a message on it invokes listener 2 only.\<close>

lemma listener_on_inherited_name_not_invoked:
  "snd (subscribe (run (new_manager store0) [Subscribe ''__proto__'' quiet_listener])
          ''0'' quiet_listener) = (''0'', 1)
   \<and> inherits (run (new_manager store0) [Subscribe ''__proto__'' quiet_listener]) ''0''
   \<and> broker_subscribed polluted ''0''
   \<and> foreign polluted (Stored 0) = [(1, quiet_listener)]
   \<and> invoked (snd (on_message polluted ''0'' ''hello'')) = [(2, ''hello'')]
   \<and> raised (snd (on_message polluted ''0'' ''hello'')) = None"
  by (simp add: registry_eval polluted_def decimal.simps)

theorem listener_invoked_once_witness:
  "\<not> inherits (run (new_manager store0) [Subscribe ''me'' quiet_listener]) ''me''
   \<and> 1 = snd (snd (subscribe (run (new_manager store0) [Subscribe ''me'' quiet_listener])
              ''me'' failing_listener))
   \<and> Unsubscribe ''me'' 1 \<notin> set [Subscribe ''me'' quiet_listener]
   \<and> filter (\<lambda>x. fst x = 1) (invoked (snd (on_message three_on_me ''me'' ''hello''))) =
       [(1, ''hello'')]
   \<and> map_of (listeners three_on_me ''me'') 1 = Some failing_listener"
proof -
  have h1: "\<not> inherits (run (new_manager store0) [Subscribe ''me'' quiet_listener]) ''me''"
    by (simp add: state_eval)
  have h2: "1 = snd (snd (subscribe (run (new_manager store0) [Subscribe ''me'' quiet_listener])
              ''me'' failing_listener))"
    by (simp add: state_eval)
  have h3: "three_on_me =
      run (fst (subscribe (run (new_manager store0) [Subscribe ''me'' quiet_listener])
              ''me'' failing_listener)) [Subscribe ''me'' quiet_listener]"
    by (simp add: three_on_me_def run_def)
  have h4: "Unsubscribe ''me'' 1 \<notin> set [Subscribe ''me'' quiet_listener]"
    by simp
  have h5: "\<forall>p\<in>set (listeners three_on_me ''me''). fst p < 1 \<longrightarrow> snd p ''hello'' = Returns"
    by (simp add: state_eval quiet_listener_def)
  show ?thesis
    using h1 h2 h4 listener_invoked_once [OF refl h1 h2 h3 h4 h5] by simp
qed

end
